theory Spec2Isabelle
  imports Main "HOL-Library.Char_ord" "HOL-Library.List_Lexorder"
begin

section \<open>Identifier catalog: reconciliation of identifier lists\<close>

text \<open>
  Go compares strings bytewise and lexicographically. Identifiers are modelled as
  \<^typ>\<open>string\<close> (lists of 8-bit characters); the order \<open><\<close> on them is the
  lexicographic extension of the order on bytes. \<open>stringLess\<close> spells that comparison
  out and is shown below to agree with \<open><\<close>.
\<close>

fun stringLess :: "string \<Rightarrow> string \<Rightarrow> bool" where
  "stringLess [] [] = False"
| "stringLess [] (y # ys) = True"
| "stringLess (x # xs) [] = False"
| "stringLess (x # xs) (y # ys) =
     ((of_char x :: nat) < of_char y \<or> (x = y \<and> stringLess xs ys))"

text \<open>
  \<open>unique.Sort(unique.StringSlice{&ids})\<close> of the library \<open>github.com/mpvl/unique\<close>:
  the slice is sorted with the string order and adjacent duplicates are removed.
\<close>

definition uniqueSort :: "string list \<Rightarrow> string list" where
  "uniqueSort ids = remdups_adj (sort ids)"

text \<open>
  \<open>diff(a, b)\<close>: the set difference \<open>b \ a\<close> of two sorted lists. The first loop runs
  while both indices are in range; the second copies what is left of \<open>b\<close>.
\<close>

fun diff :: "string list \<Rightarrow> string list \<Rightarrow> string list" where
  "diff [] b = b"
| "diff (x # a) [] = []"
| "diff (x # a) (y # b) =
     (if x < y then diff a (y # b)
      else if x > y then y # diff (x # a) b
      else diff a b)"

text \<open>
  The number of loop iterations of \<open>diff\<close> (both loops together).
\<close>

fun diffSteps :: "string list \<Rightarrow> string list \<Rightarrow> nat" where
  "diffSteps [] b = length b"
| "diffSteps (x # a) [] = 0"
| "diffSteps (x # a) (y # b) =
     (if x < y then Suc (diffSteps a (y # b))
      else if x > y then Suc (diffSteps (x # a) b)
      else Suc (diffSteps a b))"

text \<open>
  The first lines of \<open>main\<close>: \<open>fresh\<close> is what \<open>fetchIds\<close> returned, \<open>historical\<close> what
  \<open>loadIds(idsAllFile)\<close> returned. The result is \<open>(idsCur, idsArchive, idsAll)\<close>.
\<close>

definition reconcile :: "string list \<Rightarrow> string list \<Rightarrow> string list \<times> string list \<times> string list" where
  "reconcile fresh historical =
     (let idsCur = uniqueSort fresh;
          idsAll = uniqueSort (historical @ idsCur);
          idsArchive = diff idsCur idsAll
      in (idsCur, idsArchive, idsAll))"


text \<open>
  The numeric value of a string of decimal digits (what \<open>strconv.Atoi\<close> returns for it
  within the range of \<open>int\<close>); \<open>sortStringInts\<close> compares identifiers by it, and
  \<open>main\<close> never calls \<open>sortStringInts\<close>.
\<close>

definition isDigit :: "char \<Rightarrow> bool" where
  "isDigit c = (48 \<le> (of_char c :: nat) \<and> (of_char c :: nat) \<le> 57)"

definition decimalValue :: "string \<Rightarrow> nat" where
  "decimalValue s = foldl (\<lambda>n c. 10 * n + (of_char c - 48)) 0 s"

section \<open>Identifier catalog: persistence\<close>

text \<open>
  \<open>saveIds\<close> creates (and thereby truncates) the file, wraps it in a \<open>bufio.Writer\<close>
  and prints one identifier per line. The writer holds up to \<open>defaultBufSize\<close> bytes
  before it passes them on to the file; the deferred \<open>file.Close()\<close> does not flush it.
  A writer is modelled by the bytes that have reached the file (\<open>wr\<close>) and the bytes it
  still holds (\<open>buf\<close>).
  Writes to the file itself are taken to succeed; \<open>os.Create\<close> may fail.
\<close>

datatype saveError = CreateFailed | IdContainsNewline

definition defaultBufSize :: nat where
  "defaultBufSize = 4096"

record bufWriter =
  wr :: string
  buf :: string

definition bufioAvailable :: "bufWriter \<Rightarrow> nat" where
  "bufioAvailable w = defaultBufSize - length (buf w)"

text \<open>
  \<open>(*bufio.Writer).Write\<close>: while the data does not fit, an empty buffer lets the data go
  to the file directly, a non-empty one is filled up and flushed. The loop of the library
  runs at most twice and is written out.
\<close>

definition bufioWrite :: "bufWriter \<Rightarrow> string \<Rightarrow> bufWriter" where
  "bufioWrite w p =
     (if length p \<le> bufioAvailable w then w\<lparr>buf := buf w @ p\<rparr>
      else if buf w = [] then w\<lparr>wr := wr w @ p\<rparr>
      else
        let n = bufioAvailable w;
            w1 = \<lparr>wr = wr w @ buf w @ take n p, buf = []\<rparr>;
            p1 = drop n p
        in if length p1 \<le> defaultBufSize then w1\<lparr>buf := p1\<rparr>
           else w1\<lparr>wr := wr w1 @ p1\<rparr>)"

definition bufioFlush :: "bufWriter \<Rightarrow> bufWriter" where
  "bufioFlush w = \<lparr>wr = wr w @ buf w, buf = []\<rparr>"

definition newline :: char where
  "newline = CHR 0x0A"

text \<open>\<open>fmt.Fprintln(w, id)\<close> writes the identifier and a newline in one \<open>Write\<close>.\<close>

definition fprintln :: "bufWriter \<Rightarrow> string \<Rightarrow> bufWriter" where
  "fprintln w s = bufioWrite w (s @ [newline])"

text \<open>
  The loop of \<open>saveIds\<close>; the result is the writer and whether the loop ran to its end
  (\<open>False\<close>: it returned the error on an identifier with a newline).
\<close>

fun saveIds_loop :: "string list \<Rightarrow> bufWriter \<Rightarrow> bufWriter \<times> bool" where
  "saveIds_loop [] w = (w, True)"
| "saveIds_loop (ident # ids) w =
     (if newline \<in> set ident then (w, False)
      else saveIds_loop ids (fprintln w ident))"

text \<open>
  \<open>saveIds ids createOk old\<close>: \<open>old\<close> is what the file held before, \<open>createOk\<close> whether
  \<open>os.Create\<close> succeeds. The result is the returned error and the contents of the file
  afterwards.
\<close>

definition saveIds :: "string list \<Rightarrow> bool \<Rightarrow> string \<Rightarrow> saveError option \<times> string" where
  "saveIds ids createOk old =
     (if \<not> createOk then (Some CreateFailed, old)
      else case saveIds_loop ids \<lparr>wr = [], buf = []\<rparr> of
             (w, False) \<Rightarrow> (Some IdContainsNewline, wr w)
           | (w, True) \<Rightarrow> (None, wr (bufioFlush w)))"

text \<open>One identifier per line.\<close>

definition idLines :: "string list \<Rightarrow> string" where
  "idLines ids = concat (map (\<lambda>ident. ident @ [newline]) ids)"

section \<open>Fetcher\<close>

text \<open>
  \<open>getHttpDoc\<close> posts a form and parses the answer. What the network does is the input of
  the model: \<open>post i\<close> is the outcome of the \<open>i\<close>-th call of \<open>http.PostForm\<close>, either a
  network-level error or a response with its status code and with what
  \<open>goquery.NewDocumentFromResponse\<close> makes of its body (\<open>None\<close>: it fails).
  What the function does besides returning is kept as a list of events, in order.
  Durations are nanoseconds, as in \<open>time.Duration\<close>.
\<close>

datatype 'doc attempt = NetworkError | Response nat "'doc option"

datatype 'doc fetchResult = Document 'doc | NilDocument | FetchPanic

datatype fetchEvent = PostForm nat | Sleep nat | LogError | LogStatus nat | LogAbort

definition httpMaxRetries :: nat where
  "httpMaxRetries = 10"

definition httpSleepStep :: nat where
  "httpSleepStep = 1000000000"

definition StatusOK :: nat where
  "StatusOK = 200"

function getHttpDoc_loop :: "(nat \<Rightarrow> 'doc attempt) \<Rightarrow> nat \<Rightarrow> 'doc fetchResult \<times> fetchEvent list" where
  "getHttpDoc_loop post i =
     (if i \<le> httpMaxRetries then
        (case post i of
           NetworkError \<Rightarrow>
             (case getHttpDoc_loop post (i + 1) of
                (r, evs) \<Rightarrow> (r, PostForm i # LogError # Sleep (i * httpSleepStep) # evs))
         | Response status parsed \<Rightarrow>
             if status = StatusOK then
               (case parsed of
                  None \<Rightarrow> (FetchPanic, [PostForm i])
                | Some doc \<Rightarrow> (Document doc, [PostForm i]))
             else if status = 509 then
               (case getHttpDoc_loop post (i + 1) of
                  (r, evs) \<Rightarrow> (r, PostForm i # Sleep (i * httpSleepStep) # evs))
             else (NilDocument, [PostForm i, LogStatus status]))
      else (NilDocument, [LogAbort]))"
  by pat_completeness auto
termination
  by (relation "measure (\<lambda>(post, i). Suc httpMaxRetries - i)") auto

declare getHttpDoc_loop.simps [simp del]

definition getHttpDoc :: "(nat \<Rightarrow> 'doc attempt) \<Rightarrow> 'doc fetchResult \<times> fetchEvent list" where
  "getHttpDoc post = getHttpDoc_loop post 1"

text \<open>
  An attempt after which the loop goes on: a network-level error or the status 509.
\<close>

fun retried :: "'doc attempt \<Rightarrow> bool" where
  "retried NetworkError = True"
| "retried (Response status parsed) = (status = 509)"

text \<open>The events of an attempt that is retried.\<close>

fun retryEvents :: "(nat \<Rightarrow> 'doc attempt) \<Rightarrow> nat \<Rightarrow> fetchEvent list" where
  "retryEvents post i =
     (case post i of
        NetworkError \<Rightarrow> [PostForm i, LogError, Sleep (i * httpSleepStep)]
      | Response status parsed \<Rightarrow> [PostForm i, Sleep (i * httpSleepStep)])"

fun isPostForm :: "fetchEvent \<Rightarrow> bool" where
  "isPostForm (PostForm i) = True"
| "isPostForm _ = False"

section \<open>XML serializer\<close>

text \<open>
  What an \<open>xml.Encoder\<close> is made to write is modelled as a list of nodes: an element has
  a name, attributes in order and children in order. Writes to the underlying stream are
  taken to succeed, so the error returns of \<open>EncodeToken\<close>, \<open>Encode\<close> and \<open>Flush\<close> do
  not occur; a \<open>panic\<close> is a result of its own.
\<close>

datatype xmlNode = Element string "(string \<times> string) list" "xmlNode list" | CharData string

datatype marshalResult = MarshalPanic string | Encoded "xmlNode list"

record Price =
  price_Price :: string
  price_Role :: string

record Meal =
  meal_Name :: string
  meal_Notes :: "string list"
  meal_Prices :: "Price list"

record Category =
  category_Name :: string
  category_Meals :: "Meal list"

record Day =
  day_Date :: string
  day_Categories :: "Category list"

text \<open>
  \<open>Price\<close> and \<open>Meal\<close> have no \<open>MarshalXML\<close>; the encoder writes them field by field as
  their struct tags say.
\<close>

definition encodePrice :: "Price \<Rightarrow> xmlNode" where
  "encodePrice p = Element ''price'' [(''role'', price_Role p)] [CharData (price_Price p)]"

definition encodeMeal :: "Meal \<Rightarrow> xmlNode" where
  "encodeMeal m =
     Element ''meal'' []
       (Element ''name'' [] [CharData (meal_Name m)]
        # map (\<lambda>n. Element ''note'' [] [CharData n]) (meal_Notes m)
        @ map encodePrice (meal_Prices m))"

text \<open>\<open>(c *Category) MarshalXML\<close>: nothing is written for a category without meals.\<close>

definition Category_MarshalXML :: "Category \<Rightarrow> xmlNode list" where
  "Category_MarshalXML c =
     (if length (category_Meals c) = 0 then []
      else [Element ''category'' [(''name'', category_Name c)]
              (map encodeMeal (category_Meals c))])"

text \<open>
  \<open>e.Encode(c)\<close> for a \<open>Category\<close> passed by value, as \<open>Day.MarshalXML\<close> does in
  \<open>for _, c := range d.Categories\<close>. \<open>MarshalXML\<close> is declared on the pointer type
  \<open>*Category\<close>, so it is not in the method set of \<open>Category\<close>, and the value that
  \<open>Encode\<close> receives in an interface is not addressable: \<open>encoding/xml\<close> finds no
  \<open>Marshaler\<close> and writes the struct field by field as its tags say, whether or not
  there are meals.
\<close>

definition encodeCategoryValue :: "Category \<Rightarrow> xmlNode list" where
  "encodeCategoryValue c =
     [Element ''category'' [(''name'', category_Name c)] (map encodeMeal (category_Meals c))]"

text \<open>
  \<open>(d *Day) MarshalXML\<close>. The first loop looks for a category with a meal; the day is
  written with either the \<open>closed\<close> element or every category handed to \<open>e.Encode\<close>.
\<close>

definition dayClosed :: "Category list \<Rightarrow> bool" where
  "dayClosed cs = list_all (\<lambda>c. \<not> length (category_Meals c) > 0) cs"

definition Day_MarshalXML :: "Day \<Rightarrow> xmlNode" where
  "Day_MarshalXML d =
     Element ''day'' [(''date'', day_Date d)]
       (if dayClosed (day_Categories d) then [Element ''closed'' [] []]
        else concat (map encodeCategoryValue (day_Categories d)))"

text \<open>The children of an element with a given name.\<close>

fun childrenNamed :: "string \<Rightarrow> xmlNode \<Rightarrow> xmlNode list" where
  "childrenNamed n (Element e attrs cs) =
     filter (\<lambda>c. case c of Element m _ _ \<Rightarrow> m = n | CharData _ \<Rightarrow> False) cs"
| "childrenNamed n (CharData s) = []"

text \<open>
  \<open>(times Times) MarshalXML\<close>; \<open>start\<close> is the start element the encoder passes in
  (its name and attributes).
\<close>

definition weekdayNames :: "string list" where
  "weekdayNames =
     [''monday'', ''tuesday'', ''wednesday'', ''thursday'', ''friday'', ''saturday'', ''sunday'']"

definition weekdayElement :: "string list \<Rightarrow> nat \<times> string \<Rightarrow> xmlNode" where
  "weekdayElement openingHours = (\<lambda>(i, name).
     Element name
       [if openingHours ! i = [] then (''closed'', ''true'') else (''open'', openingHours ! i)]
       [])"

definition Times_MarshalXML :: "string list \<Rightarrow> string \<times> (string \<times> string) list \<Rightarrow> marshalResult" where
  "Times_MarshalXML openingHours start =
     (if length openingHours = 0 then Encoded [Element (fst start) (snd start) []]
      else if length openingHours \<noteq> 7 then
        MarshalPanic ''len(times.openingHours) != 7 and not empty''
      else Encoded
        [Element ''times'' [(''type'', ''opening'')]
           (map (weekdayElement openingHours) (enumerate 0 weekdayNames))])"

subsection \<open>Properties of the string order, \<open>uniqueSort\<close> and \<open>diff\<close>\<close>

lemma stringLess_iff: "stringLess s t \<longleftrightarrow> s < t"
  by (induction s t rule: stringLess.induct) (auto simp: less_char_def)

lemma stringLess_eq: "stringLess = (<)"
  by (intro ext) (simp add: stringLess_iff)

lemma strict_sorted_remdups_adj:
  "sorted xs \<Longrightarrow> sorted_wrt (<) (remdups_adj (xs :: 'a :: linorder list))"
proof (induction xs rule: remdups_adj.induct)
  case (3 x y xs)
  then show ?case
    by (cases "x = y") (auto simp: less_le)
qed simp_all

lemma uniqueSort_strict: "sorted_wrt (<) (uniqueSort ids)"
  by (simp add: uniqueSort_def strict_sorted_remdups_adj)

lemma uniqueSort_set: "set (uniqueSort ids) = set ids"
  by (simp add: uniqueSort_def)

lemma diff_filter:
  "sorted a \<Longrightarrow> sorted_wrt (<) b \<Longrightarrow> diff a b = filter (\<lambda>y. y \<notin> set a) b"
proof (induction a b rule: diff.induct)
  case (1 b)
  then show ?case by simp
next
  case (2 x a)
  then show ?case by simp
next
  case (3 x a y b)
  show ?case
  proof (cases "x < y")
    case True
    have "filter (\<lambda>z. z \<notin> set (x # a)) (y # b) = filter (\<lambda>z. z \<notin> set a) (y # b)"
      using True "3.prems"(2) by (intro filter_cong) auto
    with 3 True show ?thesis by simp
  next
    case False
    show ?thesis
    proof (cases "y < x")
      case True
      then have "y \<notin> set (x # a)" using "3.prems"(1) by auto
      with 3 True False show ?thesis by simp
    next
      case F2: False
      with False have xy: "x = y" by simp
      have "filter (\<lambda>z. z \<notin> set (x # a)) b = filter (\<lambda>z. z \<notin> set a) b"
        using xy "3.prems"(2) by (intro filter_cong) auto
      with 3 xy show ?thesis by simp
    qed
  qed
qed

lemma diffSteps_linear: "diffSteps a b \<le> length a + length b"
  by (induction a b rule: diffSteps.induct) auto

lemma uniqueSort_sorted: "sorted (uniqueSort ids)"
  using uniqueSort_strict [of ids] by (simp add: strict_sorted_iff)

lemma diff_uniqueSort:
  "diff (uniqueSort xs) (uniqueSort ys) = filter (\<lambda>y. y \<notin> set xs) (uniqueSort ys)"
  using diff_filter [OF uniqueSort_sorted uniqueSort_strict, of xs ys]
  by (simp add: uniqueSort_set)

lemma uniqueSort_append_idem:
  "uniqueSort (historical @ uniqueSort fresh) = uniqueSort (historical @ fresh)"
proof (rule sorted_distinct_set_unique)
  show "set (uniqueSort (historical @ uniqueSort fresh)) = set (uniqueSort (historical @ fresh))"
    by (simp add: uniqueSort_set)
qed (use uniqueSort_strict strict_sorted_iff in blast)+

text \<open>
  Claim C1. For every historical list and every fetch result, \<open>main\<close> computes
  \<open>current\<close> as the fetch result deduplicated and sorted, \<open>newAll\<close> as the union of the
  historical list and the fetch result deduplicated and sorted, and the archive delta as
  \<open>diff current newAll\<close>, which is exactly the elements of \<open>newAll\<close> that are not in
  \<open>current\<close>; \<open>diff\<close> is one merge pass whose number of iterations is at most the sum
  of the two lengths. For the historical list 101, 102 and the fetch result 102, 103 the
  results are 102, 103 (current), 101 (archive delta) and 101, 102, 103 (newAll).
\<close>

theorem reconcile_sets:
  "(case reconcile fresh historical of (cur, arch, all) \<Rightarrow>
      cur = uniqueSort fresh \<and> sorted_wrt stringLess cur \<and> set cur = set fresh \<and>
      all = uniqueSort (historical @ fresh) \<and> sorted_wrt stringLess all \<and>
      set all = set historical \<union> set fresh \<and>
      arch = diff cur all \<and> arch = filter (\<lambda>y. y \<notin> set cur) all \<and>
      set arch = set historical - set fresh \<and>
      diffSteps cur all \<le> length cur + length all) \<and>
   reconcile [''102'', ''103''] [''101'', ''102'']
     = ([''102'', ''103''], [''101''], [''101'', ''102'', ''103''])"
proof -
  have ex: "reconcile [''102'', ''103''] [''101'', ''102'']
     = ([''102'', ''103''], [''101''], [''101'', ''102'', ''103''])"
    by (simp add: reconcile_def uniqueSort_def Let_def)
  have arch: "diff (uniqueSort fresh) (uniqueSort (historical @ fresh))
      = filter (\<lambda>y. y \<notin> set (uniqueSort fresh)) (uniqueSort (historical @ fresh))"
    by (simp add: diff_uniqueSort uniqueSort_set)
  have "set (diff (uniqueSort fresh) (uniqueSort (historical @ fresh))) = set historical - set fresh"
    unfolding arch by (auto simp: uniqueSort_set)
  with arch have "case reconcile fresh historical of (cur, arch, all) \<Rightarrow>
      cur = uniqueSort fresh \<and> sorted_wrt stringLess cur \<and> set cur = set fresh \<and>
      all = uniqueSort (historical @ fresh) \<and> sorted_wrt stringLess all \<and>
      set all = set historical \<union> set fresh \<and>
      arch = diff cur all \<and> arch = filter (\<lambda>y. y \<notin> set cur) all \<and>
      set arch = set historical - set fresh \<and>
      diffSteps cur all \<le> length cur + length all"
    by (simp add: reconcile_def Let_def uniqueSort_append_idem stringLess_eq
        uniqueSort_strict uniqueSort_set diffSteps_linear)
  then show ?thesis using ex by (rule conjI)
qed

subsection \<open>The order of the persisted identifiers\<close>

lemma decimalValue_Cons:
  "decimalValue (c # s) = (of_char c - 48) * 10 ^ length s + decimalValue s"
proof -
  have "foldl (\<lambda>n c. 10 * n + (of_char c - 48)) a s
      = a * 10 ^ length s + foldl (\<lambda>n c. 10 * n + (of_char c - 48)) (0::nat) s" for a
  proof (induction s arbitrary: a rule: rev_induct)
    case Nil
    then show ?case by simp
  next
    case (snoc x xs)
    have "foldl (\<lambda>n c. 10 * n + (of_char c - 48)) a (xs @ [x])
        = 10 * foldl (\<lambda>n c. 10 * n + (of_char c - 48)) a xs + (of_char x - 48)"
      by simp
    also have "\<dots> = 10 * (a * 10 ^ length xs + foldl (\<lambda>n c. 10 * n + (of_char c - 48)) 0 xs)
        + (of_char x - 48)"
      by (subst snoc [of a]) (rule refl)
    finally show ?case by (simp add: algebra_simps)
  qed
  from this [of "of_char c - 48"] show ?thesis
    by (simp add: decimalValue_def)
qed

lemma decimalValue_bound: "list_all isDigit s \<Longrightarrow> decimalValue s < 10 ^ length s"
proof (induction s)
  case Nil
  then show ?case by (simp add: decimalValue_def)
next
  case (Cons c s)
  then have "of_char c - 48 \<le> (9::nat)" and "decimalValue s < 10 ^ length s"
    by (auto simp: isDigit_def)
  then have "(of_char c - 48) * 10 ^ length s + decimalValue s < 9 * 10 ^ length s + 10 ^ length s"
    by (meson add_le_less_mono mult_le_mono1)
  then show ?case by (simp add: decimalValue_Cons)
qed

lemma stringLess_numeric:
  "length s = length t \<Longrightarrow> list_all isDigit s \<Longrightarrow> list_all isDigit t \<Longrightarrow>
   stringLess s t \<longleftrightarrow> decimalValue s < decimalValue t"
proof (induction s t rule: list_induct2)
  case Nil
  then show ?case by (simp add: decimalValue_def)
next
  case (Cons x xs y ys)
  let ?dx = "of_char x - (48::nat)" and ?dy = "of_char y - (48::nat)"
  let ?p = "(10::nat) ^ length xs"
  have bx: "decimalValue xs < ?p" and by': "decimalValue ys < ?p"
    using Cons decimalValue_bound [of xs] decimalValue_bound [of ys] by auto
  have dig: "48 \<le> (of_char x :: nat)" "48 \<le> (of_char y :: nat)"
    using Cons.prems by (auto simp: isDigit_def)
  consider "(of_char x :: nat) < of_char y" | "x = y" | "(of_char y :: nat) < of_char x"
    by (metis linorder_neqE_nat of_char_eq_iff)
  then show ?case
  proof cases
    case 1
    then have "?dx + 1 \<le> ?dy" using dig by linarith
    then have "(?dx + 1) * ?p \<le> ?dy * ?p" by (rule mult_le_mono1)
    then have "?dx * ?p + decimalValue xs < ?dy * ?p + decimalValue ys"
      using bx by (simp add: algebra_simps)
    with 1 Cons.hyps show ?thesis by (simp add: decimalValue_Cons)
  next
    case 2
    with Cons show ?thesis by (simp add: decimalValue_Cons)
  next
    case 3
    then have "?dy + 1 \<le> ?dx" using dig by linarith
    then have "(?dy + 1) * ?p \<le> ?dx * ?p" by (rule mult_le_mono1)
    then have "?dy * ?p + decimalValue ys < ?dx * ?p + decimalValue xs"
      using by' by (simp add: algebra_simps)
    moreover have "x \<noteq> y" using 3 by auto
    ultimately show ?thesis using 3 Cons.hyps by (simp add: decimalValue_Cons)
  qed
qed

text \<open>
  Claim C8, as the code has it. The persisted \<open>current\<close> sequence is the fetch result
  deduplicated and strictly increasing in the bytewise lexicographic order of Go strings.
  Two of its members that are digit strings of the same length are thereby also in the
  order of their numeric values; identifiers of different lengths need not be:
  for the fetch result 321, 1000, 321 the sequence is 1000, 321.
\<close>

theorem current_order:
  "sorted_wrt stringLess (fst (reconcile fresh historical)) \<and>
   set (fst (reconcile fresh historical)) = set fresh \<and>
   (i < j \<and> j < length (fst (reconcile fresh historical)) \<and>
       length (fst (reconcile fresh historical) ! i) = length (fst (reconcile fresh historical) ! j) \<and>
       list_all isDigit (fst (reconcile fresh historical) ! i) \<and>
       list_all isDigit (fst (reconcile fresh historical) ! j) \<longrightarrow>
       decimalValue (fst (reconcile fresh historical) ! i) < decimalValue (fst (reconcile fresh historical) ! j)) \<and>
   fst (reconcile [''321'', ''1000'', ''321''] historical) = [''1000'', ''321'']"
proof -
  let ?cur = "fst (reconcile fresh historical)"
  have cur: "?cur = uniqueSort fresh" by (simp add: reconcile_def Let_def)
  have s: "sorted_wrt stringLess ?cur"
    unfolding cur by (simp add: stringLess_eq uniqueSort_strict)
  have n: "decimalValue (?cur ! i) < decimalValue (?cur ! j)"
    if "i < j" "j < length ?cur" "length (?cur ! i) = length (?cur ! j)"
       "list_all isDigit (?cur ! i)" "list_all isDigit (?cur ! j)"
  proof -
    have "stringLess (?cur ! i) (?cur ! j)"
      using s that(1,2) by (simp add: sorted_wrt_iff_nth_less)
    then show ?thesis using stringLess_numeric that by blast
  qed
  have e: "fst (reconcile [''321'', ''1000'', ''321''] historical) = [''1000'', ''321'']"
    by (simp add: reconcile_def Let_def uniqueSort_def)
  have st: "set ?cur = set fresh" by (simp add: cur uniqueSort_set)
  show ?thesis using s n e st by blast
qed

theorem current_order_witness:
  "fst (reconcile [''322'', ''321''] []) = [''321'', ''322''] \<and>
   decimalValue ''321'' < decimalValue ''322''"
  using current_order [of "[''322'', ''321'']" "[]" 0 1]
  by (simp add: reconcile_def Let_def uniqueSort_def isDigit_def)

text \<open>
  The sequence is not sorted by numeric value: 1000 is placed before 321.
\<close>

theorem current_numeric_counterexample:
  "fst (reconcile [''321'', ''1000''] []) = [''1000'', ''321''] \<and>
   decimalValue ''321'' < decimalValue ''1000''"
  by (simp add: reconcile_def Let_def uniqueSort_def decimalValue_def)

subsection \<open>Persistence of identifier lists\<close>

lemma bufioWrite_inv:
  assumes "length (buf w) \<le> defaultBufSize"
  shows "wr (bufioWrite w p) @ buf (bufioWrite w p) = wr w @ buf w @ p
    \<and> length (buf (bufioWrite w p)) \<le> defaultBufSize"
  using assms by (auto simp: bufioWrite_def bufioAvailable_def Let_def)

lemma saveIds_loop_inv:
  "length (buf w) \<le> defaultBufSize \<Longrightarrow> saveIds_loop ids w = (w', ok) \<Longrightarrow>
   wr w' @ buf w' = wr w @ buf w @ idLines (takeWhile (\<lambda>i. newline \<notin> set i) ids)
   \<and> length (buf w') \<le> defaultBufSize
   \<and> (ok \<longleftrightarrow> (\<forall>i\<in>set ids. newline \<notin> set i))"
proof (induction ids arbitrary: w)
  case Nil
  then show ?case by (simp add: idLines_def)
next
  case (Cons i ids)
  show ?case
  proof (cases "newline \<in> set i")
    case True
    with Cons.prems show ?thesis by (auto simp: idLines_def)
  next
    case False
    from bufioWrite_inv [OF Cons.prems(1), of "i @ [newline]"]
    have inv: "wr (fprintln w i) @ buf (fprintln w i) = wr w @ buf w @ i @ [newline]"
      and len: "length (buf (fprintln w i)) \<le> defaultBufSize"
      by (simp_all add: fprintln_def)
    from Cons.prems(2) False have "saveIds_loop ids (fprintln w i) = (w', ok)" by simp
    from Cons.IH [OF len this] inv False show ?thesis
      by (simp add: idLines_def)
  qed
qed

text \<open>
  Claim C9, as the code has it. When no identifier contains a newline, saving succeeds and
  the file holds exactly one line per identifier, each ended by a newline. When some
  identifier contains a newline, saving fails with the input-validation error; the file
  then holds a prefix of the lines of the identifiers before the first offending one
  (all of them but what the buffered writer still held, at most \<open>defaultBufSize\<close> bytes),
  and nothing of the offending identifier or of those after it. Saving is idempotent:
  the contents after a second save of the same list are those after the first.
\<close>

theorem saveIds_lines:
  "((\<forall>i\<in>set ids. newline \<notin> set i) \<longrightarrow> saveIds ids True old = (None, idLines ids)) \<and>
   ((\<exists>i\<in>set ids. newline \<in> set i) \<longrightarrow>
      fst (saveIds ids True old) = Some IdContainsNewline \<and>
      (\<exists>lost. length lost \<le> defaultBufSize \<and>
         snd (saveIds ids True old) @ lost = idLines (takeWhile (\<lambda>i. newline \<notin> set i) ids))) \<and>
   snd (saveIds ids True (snd (saveIds ids True old))) = snd (saveIds ids True old)"
proof -
  obtain w ok where l: "saveIds_loop ids \<lparr>wr = [], buf = []\<rparr> = (w, ok)"
    by (cases "saveIds_loop ids \<lparr>wr = [], buf = []\<rparr>")
  from saveIds_loop_inv [OF _ l]
  have inv: "wr w @ buf w = idLines (takeWhile (\<lambda>i. newline \<notin> set i) ids)"
    and len: "length (buf w) \<le> defaultBufSize"
    and ok: "ok \<longleftrightarrow> (\<forall>i\<in>set ids. newline \<notin> set i)"
    by simp_all
  have a: "saveIds ids True old = (None, idLines ids)" if "\<forall>i\<in>set ids. newline \<notin> set i"
  proof -
    from that have "takeWhile (\<lambda>i. newline \<notin> set i) ids = ids" by (simp add: takeWhile_eq_all_conv)
    with that inv ok l show ?thesis by (simp add: saveIds_def bufioFlush_def)
  qed
  have b: "fst (saveIds ids True old) = Some IdContainsNewline \<and>
      (\<exists>lost. length lost \<le> defaultBufSize \<and>
         snd (saveIds ids True old) @ lost = idLines (takeWhile (\<lambda>i. newline \<notin> set i) ids))"
    if "\<exists>i\<in>set ids. newline \<in> set i"
  proof -
    from that ok have "\<not> ok" by blast
    with l inv len show ?thesis by (auto simp: saveIds_def)
  qed
  have c: "snd (saveIds ids True (snd (saveIds ids True old))) = snd (saveIds ids True old)"
    by (simp add: saveIds_def)
  from a b c show ?thesis by blast
qed

theorem saveIds_lines_witness:
  "saveIds [''321'', ''322''] True ''old'' = (None, ''321'' @ [newline] @ ''322'' @ [newline]) \<and>
   fst (saveIds [''321'', [CHR ''3'', newline, CHR ''2'']] True ''old'') = Some IdContainsNewline"
  using saveIds_lines [of "[''321'', ''322'']" "''old''"]
    saveIds_lines [of "[''321'', [CHR ''3'', newline, CHR ''2'']]" "''old''"]
  by (simp add: idLines_def newline_def)

text \<open>
  An identifier of at least \<open>defaultBufSize\<close> bytes goes to the file at once; an error on
  the next identifier leaves it there.
\<close>

lemma saveIds_big_first:
  assumes "defaultBufSize \<le> length a" "newline \<notin> set a" "newline \<in> set b"
  shows "saveIds [a, b] True old = (Some IdContainsNewline, a @ [newline])"
  using assms by (simp add: saveIds_def fprintln_def bufioWrite_def bufioAvailable_def)

text \<open>
  On an error the file can hold partial contents: here the first line has been written,
  the file is neither empty nor what it was before.
\<close>

theorem saveIds_partial_counterexample:
  "saveIds [replicate 4096 CHR ''a'', [CHR ''b'', newline, CHR ''c'']] True [CHR ''7'', newline]
     = (Some IdContainsNewline, replicate 4096 CHR ''a'' @ [newline]) \<and>
   replicate 4096 CHR ''a'' @ [newline] \<noteq> [] \<and>
   replicate 4096 CHR ''a'' @ [newline] \<noteq> [CHR ''7'', newline]"
proof -
  have "saveIds [replicate 4096 CHR ''a'', [CHR ''b'', newline, CHR ''c'']] True [CHR ''7'', newline]
     = (Some IdContainsNewline, replicate 4096 CHR ''a'' @ [newline])"
    by (rule saveIds_big_first) (simp_all add: defaultBufSize_def newline_def)
  moreover have "length (replicate 4096 CHR ''a'' @ [newline]) \<noteq> length [CHR ''7'', newline]"
    by simp
  then have "replicate 4096 CHR ''a'' @ [newline] \<noteq> [CHR ''7'', newline]" by metis
  ultimately show ?thesis by simp
qed

subsection \<open>The retry policy of the fetcher\<close>

lemma getHttpDoc_loop_retried:
  "i \<le> httpMaxRetries \<Longrightarrow> retried (post i) \<Longrightarrow>
   getHttpDoc_loop post i =
     (fst (getHttpDoc_loop post (Suc i)), retryEvents post i @ snd (getHttpDoc_loop post (Suc i)))"
  by (subst getHttpDoc_loop.simps)
     (auto simp: StatusOK_def split: attempt.splits prod.splits)

lemma getHttpDoc_loop_past: "httpMaxRetries < i \<Longrightarrow> getHttpDoc_loop post i = (NilDocument, [LogAbort])"
  by (subst getHttpDoc_loop.simps) simp

lemma getHttpDoc_loop_status:
  "i \<le> httpMaxRetries \<Longrightarrow> post i = Response s p \<Longrightarrow> s \<noteq> StatusOK \<Longrightarrow> s \<noteq> 509 \<Longrightarrow>
   getHttpDoc_loop post i = (NilDocument, [PostForm i, LogStatus s])"
  by (subst getHttpDoc_loop.simps) simp

lemma getHttpDoc_loop_ok:
  "i \<le> httpMaxRetries \<Longrightarrow> post i = Response StatusOK (Some d) \<Longrightarrow>
   getHttpDoc_loop post i = (Document d, [PostForm i])"
  by (subst getHttpDoc_loop.simps) simp

lemma getHttpDoc_loop_corrupt:
  "i \<le> httpMaxRetries \<Longrightarrow> post i = Response StatusOK None \<Longrightarrow>
   getHttpDoc_loop post i = (FetchPanic, [PostForm i])"
  by (subst getHttpDoc_loop.simps) simp

lemma getHttpDoc_loop_prefix:
  "i \<le> k \<Longrightarrow> k \<le> Suc httpMaxRetries \<Longrightarrow> (\<forall>j. i \<le> j \<and> j < k \<longrightarrow> retried (post j)) \<Longrightarrow>
   getHttpDoc_loop post i =
     (fst (getHttpDoc_loop post k), concat (map (retryEvents post) [i..<k]) @ snd (getHttpDoc_loop post k))"
proof (induction "k - i" arbitrary: i)
  case 0
  then show ?case by simp
next
  case (Suc n)
  then have ik: "i < k" and r: "retried (post i)" and le: "i \<le> httpMaxRetries" by auto
  have "getHttpDoc_loop post (Suc i) =
     (fst (getHttpDoc_loop post k),
      concat (map (retryEvents post) [Suc i..<k]) @ snd (getHttpDoc_loop post k))"
    using Suc by (intro Suc.hyps(1)) auto
  with getHttpDoc_loop_retried [of i post, OF le r] ik show ?case
    by (simp add: upt_conv_Cons del: retryEvents.simps)
qed

lemma getHttpDoc_loop_posts:
  "length (filter isPostForm (snd (getHttpDoc_loop post i))) \<le> Suc httpMaxRetries - i"
proof (induction post i rule: getHttpDoc_loop.induct)
  case (1 post i)
  show ?case
  proof (cases "i \<le> httpMaxRetries")
    case False
    then show ?thesis by (simp add: getHttpDoc_loop_past)
  next
    case True
    show ?thesis
    proof (cases "retried (post i)")
      case r: True
      have "length (filter isPostForm (snd (getHttpDoc_loop post (i + 1)))) \<le> Suc httpMaxRetries - (i + 1)"
      proof (cases "post i")
        case NetworkError
        with True show ?thesis by (intro "1.IH"(1)) auto
      next
        case (Response s p)
        with r have "s = 509" by simp
        with True Response show ?thesis by (intro "1.IH"(2)) (auto simp: StatusOK_def)
      qed
      with True r show ?thesis
        by (auto simp add: getHttpDoc_loop_retried Suc_diff_le split: attempt.splits)
    next
      case False
      then obtain s p where sp: "post i = Response s p" "s \<noteq> 509" by (cases "post i") auto
      with True show ?thesis
        by (subst getHttpDoc_loop.simps) (auto split: option.splits)
    qed
  qed
qed

text \<open>
  Claim C4. \<open>getHttpDoc\<close> calls \<open>http.PostForm\<close> at most 10 times. Let the attempts
  before the \<open>k\<close>-th all be network-level errors or answers with status 509: each such
  attempt \<open>i\<close> is followed by a sleep of \<open>i\<close> seconds and then by the next attempt.
  If the \<open>k\<close>-th answer has another status than 200 and 509, the function returns the nil
  document at once, without another attempt; if it has status 200 and its body parses,
  the document is returned; if the body does not parse, the function panics, without
  another attempt. If all 10 attempts are errors or 509 answers, the function returns the
  nil document after the tenth and does not panic.
\<close>

theorem getHttpDoc_policy:
  "length (filter isPostForm (snd (getHttpDoc post))) \<le> 10 \<and>
   (1 \<le> k \<and> k \<le> 10 \<and> (\<forall>j. 1 \<le> j \<and> j < k \<longrightarrow> retried (post j)) \<longrightarrow>
      (\<forall>s p. post k = Response s p \<and> s \<noteq> 200 \<and> s \<noteq> 509 \<longrightarrow>
         getHttpDoc post =
           (NilDocument, concat (map (retryEvents post) [1..<k]) @ [PostForm k, LogStatus s])) \<and>
      (\<forall>d. post k = Response 200 (Some d) \<longrightarrow>
         getHttpDoc post = (Document d, concat (map (retryEvents post) [1..<k]) @ [PostForm k])) \<and>
      (post k = Response 200 None \<longrightarrow>
         getHttpDoc post = (FetchPanic, concat (map (retryEvents post) [1..<k]) @ [PostForm k]))) \<and>
   ((\<forall>j. 1 \<le> j \<and> j \<le> 10 \<longrightarrow> retried (post j)) \<longrightarrow>
      getHttpDoc post = (NilDocument, concat (map (retryEvents post) [1..<11]) @ [LogAbort])) \<and>
   (\<forall>i. retried (post i) \<longrightarrow> Sleep (i * 1000000000) \<in> set (retryEvents post i))"
proof -
  have a: "length (filter isPostForm (snd (getHttpDoc post))) \<le> 10"
    using getHttpDoc_loop_posts [of post 1] by (simp add: getHttpDoc_def httpMaxRetries_def)
  have pre: "getHttpDoc post =
     (fst (getHttpDoc_loop post k), concat (map (retryEvents post) [1..<k]) @ snd (getHttpDoc_loop post k))"
    if "1 \<le> k" "k \<le> 11" "\<forall>j. 1 \<le> j \<and> j < k \<longrightarrow> retried (post j)" for k
    unfolding getHttpDoc_def using that
    by (intro getHttpDoc_loop_prefix) (auto simp: httpMaxRetries_def)
  have b: "getHttpDoc post =
           (NilDocument, concat (map (retryEvents post) [1..<k]) @ [PostForm k, LogStatus s])"
    if "1 \<le> k" "k \<le> 10" "\<forall>j. 1 \<le> j \<and> j < k \<longrightarrow> retried (post j)"
       "post k = Response s p" "s \<noteq> 200" "s \<noteq> 509" for s p
    using pre [of k] that getHttpDoc_loop_status [of k post s p]
    by (simp add: httpMaxRetries_def StatusOK_def)
  have c: "getHttpDoc post = (Document d, concat (map (retryEvents post) [1..<k]) @ [PostForm k])"
    if "1 \<le> k" "k \<le> 10" "\<forall>j. 1 \<le> j \<and> j < k \<longrightarrow> retried (post j)"
       "post k = Response 200 (Some d)" for d
    using pre [of k] that getHttpDoc_loop_ok [of k post d]
    by (simp add: httpMaxRetries_def StatusOK_def)
  have d: "getHttpDoc post = (FetchPanic, concat (map (retryEvents post) [1..<k]) @ [PostForm k])"
    if "1 \<le> k" "k \<le> 10" "\<forall>j. 1 \<le> j \<and> j < k \<longrightarrow> retried (post j)"
       "post k = Response 200 None"
    using pre [of k] that getHttpDoc_loop_corrupt [of k post]
    by (simp add: httpMaxRetries_def StatusOK_def)
  have e: "getHttpDoc post = (NilDocument, concat (map (retryEvents post) [1..<11]) @ [LogAbort])"
    if "\<forall>j. 1 \<le> j \<and> j \<le> 10 \<longrightarrow> retried (post j)"
    using pre [of 11] that getHttpDoc_loop_past [of 11 post]
    by (simp add: httpMaxRetries_def)
  have f: "Sleep (i * 1000000000) \<in> set (retryEvents post i)" if "retried (post i)" for i
    using that by (cases "post i") (simp_all add: httpSleepStep_def)
  from a b c d e f show ?thesis by blast
qed


theorem getHttpDoc_policy_witness:
  "getHttpDoc (\<lambda>i. if i = 1 then NetworkError else if i = 2 then Response 509 None
                   else Response 404 (None :: string option))
     = (NilDocument, [PostForm 1, LogError, Sleep 1000000000, PostForm 2, Sleep 2000000000,
                      PostForm 3, LogStatus 404]) \<and>
   getHttpDoc (\<lambda>i. if i = 1 then Response 509 None else Response 200 (Some ''doc''))
     = (Document ''doc'', [PostForm 1, Sleep 1000000000, PostForm 2]) \<and>
   getHttpDoc (\<lambda>i. Response 200 (None :: string option)) = (FetchPanic, [PostForm 1]) \<and>
   fst (getHttpDoc (\<lambda>i. NetworkError :: string attempt)) = NilDocument"
proof -
  let ?p1 = "\<lambda>i::nat. if i = 1 then NetworkError else if i = 2 then Response 509 None
                   else Response 404 (None :: string option)"
  let ?p2 = "\<lambda>i::nat. if i = 1 then Response 509 None else Response 200 (Some ''doc'')"
  let ?p3 = "\<lambda>i::nat. Response 200 (None :: string option)"
  let ?p4 = "\<lambda>i::nat. NetworkError :: string attempt"
  have u3: "[Suc 0..<3] = [Suc 0, 2]" and u2: "[Suc 0..<2] = [Suc 0]"
    by (simp_all add: upt_conv_Cons)
  have h1: "\<forall>j. 1 \<le> j \<and> j < 3 \<longrightarrow> retried (?p1 j)"
  proof (intro allI impI)
    fix j :: nat assume "1 \<le> j \<and> j < 3"
    then have "j = 1 \<or> j = 2" by linarith
    then show "retried (?p1 j)" by auto
  qed
  have h2: "\<forall>j. 1 \<le> j \<and> j < 2 \<longrightarrow> retried (?p2 j)"
  proof (intro allI impI)
    fix j :: nat assume "1 \<le> j \<and> j < 2"
    then have "j = 1" by linarith
    then show "retried (?p2 j)" by simp
  qed
  have a: "getHttpDoc ?p1 = (NilDocument, [PostForm 1, LogError, Sleep 1000000000, PostForm 2,
      Sleep 2000000000, PostForm 3, LogStatus 404])"
    using getHttpDoc_policy [of ?p1 3] h1 by (simp add: u3 httpSleepStep_def)
  have b: "getHttpDoc ?p2 = (Document ''doc'', [PostForm 1, Sleep 1000000000, PostForm 2])"
    using getHttpDoc_policy [of ?p2 2] h2 by (simp add: u2 httpSleepStep_def)
  have c: "getHttpDoc ?p3 = (FetchPanic, [PostForm 1])"
    using getHttpDoc_policy [of ?p3 1] by simp
  have d: "fst (getHttpDoc ?p4) = NilDocument"
    using getHttpDoc_policy [of ?p4 1] by simp
  from a b c d show ?thesis by blast
qed

end
